theory Spec2Isabelle
  imports Main
begin

section \<open>The lexer of ravenfall: data model\<close>

text \<open>
  The embedding follows \<^verbatim>\<open>src/ravenfall/frontend/lexer.py\<close>. A Python \<^verbatim>\<open>str\<close> is a
  sequence of code points; here a source text is a \<^typ>\<open>string\<close>, one \<^typ>\<open>char\<close> per
  code point, which covers the code points 0 to 255. The member \<^verbatim>\<open>INT\<close> of the
  enumeration is written \<open>INT_T\<close> and the field \<^verbatim>\<open>value\<close> of a token \<open>tvalue\<close>, since
  Isabelle reserves both words.
\<close>

datatype TokenType =
    INT_T | FLOAT | STRING | BOOLEAN
  | EQUALS | ADD | SUBTRACT | MULTIPLY | DIVIDE | MODULO
  | OPEN_PAREN | CLOSE_PAREN | OPEN_BRACE | CLOSE_BRACE | OPEN_BRACKET | CLOSE_BRACKET
  | PERIOD | COMMA | COLON
  | INDENT | DEDENT | NEWLINE
  | IDENTIFIER | LET | MUT | EOF

record Token =
  tvalue :: string
  type :: TokenType

definition Token :: "string \<Rightarrow> TokenType \<Rightarrow> Token" where
  "Token v t = \<lparr>tvalue = v, type = t\<rparr>"

text \<open>
  The three ways the scan aborts: the explicit \<^verbatim>\<open>raise IndentationError\<close> (line 92), the
  explicit \<^verbatim>\<open>raise Exception\<close> for an unrecognized character (line 153), and the
  \<^verbatim>\<open>IndexError\<close> Python raises for \<^verbatim>\<open>chars[0]\<close> on an empty list (line 107).
\<close>

datatype error = IndentationError | UnrecognizedCharacter char | IndexError

definition KEYWORDS :: "string \<rightharpoonup> TokenType" where
  "KEYWORDS = map_of [(''let'', LET), (''mut'', MUT)]"

definition token_map :: "char \<rightharpoonup> TokenType" where
  "token_map = map_of
     [(CHR ''='', EQUALS), (CHR ''+'', ADD), (CHR ''-'', SUBTRACT), (CHR ''*'', MULTIPLY),
      (CHR ''/'', DIVIDE), (CHR ''%'', MODULO), (CHR ''.'', PERIOD), (CHR '','', COMMA),
      (CHR '':'', COLON), (CHR ''('', OPEN_PAREN), (CHR '')'', CLOSE_PAREN),
      (CHR ''{'', OPEN_BRACE), (CHR ''}'', CLOSE_BRACE), (CHR ''['', OPEN_BRACKET),
      (CHR '']'', CLOSE_BRACKET)]"

subsection \<open>Python's character classes\<close>

text \<open>
  \<^verbatim>\<open>str.isalpha\<close>, \<^verbatim>\<open>str.isnumeric\<close> and \<^verbatim>\<open>str.isalnum\<close> on one character, as the Unicode
  database classifies the code points 0 to 255: the letters are A-Z, a-z, U+00AA, U+00B5,
  U+00BA, U+00C0-U+00D6, U+00D8-U+00F6 and U+00F8-U+00FF; the numeric characters are 0-9,
  the superscripts U+00B2, U+00B3, U+00B9 and the fractions U+00BC-U+00BE; a character is
  alphanumeric when it is alphabetic, decimal, a digit or numeric, which on this range is
  alphabetic or numeric.
\<close>

definition isalpha :: "char \<Rightarrow> bool" where
  "isalpha c = (let n = (of_char c :: nat) in
     (65 \<le> n \<and> n \<le> 90) \<or> (97 \<le> n \<and> n \<le> 122) \<or> n = 170 \<or> n = 181 \<or> n = 186 \<or>
     (192 \<le> n \<and> n \<le> 214) \<or> (216 \<le> n \<and> n \<le> 246) \<or> (248 \<le> n \<and> n \<le> 255))"

definition isnumeric :: "char \<Rightarrow> bool" where
  "isnumeric c = (let n = (of_char c :: nat) in
     (48 \<le> n \<and> n \<le> 57) \<or> n = 178 \<or> n = 179 \<or> n = 185 \<or> (188 \<le> n \<and> n \<le> 190))"

definition isalnum :: "char \<Rightarrow> bool" where
  "isalnum c = (isalpha c \<or> isnumeric c)"

section \<open>The scanner\<close>

text \<open>The local variables of \<^verbatim>\<open>tokenize\<close> (lines 66 to 69).\<close>

record state =
  chars :: string
  any_bracket_level :: int
  last_indent_level :: int
  token_stream :: "Token list"

subsection \<open>The inner loops\<close>

text \<open>
  Lines 79 to 81: \<^verbatim>\<open>while chars[:4] == [' ',]*4: del chars[:4]; indent_level += 1\<close>.
\<close>

function indent_loop :: "string \<Rightarrow> int \<Rightarrow> string \<times> int" where
  "indent_loop cs indent_level =
     (if take 4 cs = replicate 4 (CHR '' '')
      then indent_loop (drop 4 cs) (indent_level + 1)
      else (cs, indent_level))"
  by pat_completeness auto
termination
proof (relation "measure (\<lambda>(cs, n). length cs)")
  show "wf (measure (\<lambda>(cs, n). length cs))" by simp
next
  fix cs :: string and indent_level :: int
  assume a: "take 4 cs = replicate 4 (CHR '' '')"
  have "length (take 4 cs) = 4" by (simp only: a length_replicate)
  then have "4 \<le> length cs" by simp
  then show "((drop 4 cs, indent_level + 1), (cs, indent_level)) \<in> measure (\<lambda>(cs, n). length cs)"
    by simp
qed

declare indent_loop.simps [simp del]

text \<open>
  Lines 97 to 99: \<^verbatim>\<open>while indent_level < last_indent_level: last_indent_level -= 1;
  token_stream.append(Token('', TokenType.DEDENT))\<close>.
\<close>

function dedent_loop :: "int \<Rightarrow> int \<Rightarrow> Token list \<Rightarrow> int \<times> Token list" where
  "dedent_loop indent_level last_indent toks =
     (if indent_level < last_indent
      then dedent_loop indent_level (last_indent - 1) (toks @ [Token [] DEDENT])
      else (last_indent, toks))"
  by pat_completeness auto
termination
  by (relation "measure (\<lambda>(i, l, t). nat (l - i))") auto

declare dedent_loop.simps [simp del]

text \<open>
  Lines 107 and 108: \<^verbatim>\<open>while chars[0] != quote_type: full_string.append(chars.pop(0))\<close>.
  Reading \<^verbatim>\<open>chars[0]\<close> of the empty list raises. The loop returns the string built and
  the characters left, the first of which is the closing quote.
\<close>

fun string_loop :: "char \<Rightarrow> string \<Rightarrow> string \<Rightarrow> error + (string \<times> string)" where
  "string_loop quote_type [] full_string = Inl IndexError"
| "string_loop quote_type (c # cs) full_string =
     (if c \<noteq> quote_type then string_loop quote_type cs (full_string @ [c])
      else Inr (full_string, c # cs))"

text \<open>
  Lines 123 to 128: the loop of the number scanner, with its \<^verbatim>\<open>break\<close> at a second
  period. It returns the characters left, \<^verbatim>\<open>period_found\<close> and \<^verbatim>\<open>full_number\<close>.
\<close>

fun number_loop :: "string \<Rightarrow> bool \<Rightarrow> string \<Rightarrow> string \<times> bool \<times> string" where
  "number_loop [] period_found full_number = ([], period_found, full_number)"
| "number_loop (c # cs) period_found full_number =
     (if isnumeric c \<or> c = CHR ''.''
      then (if period_found \<and> \<not> isnumeric c then (c # cs, period_found, full_number)
            else number_loop cs (if c = CHR ''.'' then True else period_found)
                   (full_number @ [c]))
      else (c # cs, period_found, full_number))"

text \<open>
  Lines 136 and 137: \<^verbatim>\<open>while chars and (chars[0].isalnum() or chars[0] in '_')\<close>.
\<close>

fun word_loop :: "string \<Rightarrow> string \<Rightarrow> string \<times> string" where
  "word_loop [] full_value = ([], full_value)"
| "word_loop (c # cs) full_value =
     (if isalnum c \<or> c = CHR ''_'' then word_loop cs (full_value @ [c])
      else (c # cs, full_value))"

subsection \<open>One iteration of the main loop\<close>

text \<open>Lines 74 to 99: a newline, the indentation after it, and the structural tokens.\<close>

definition newline_mode :: "state \<Rightarrow> char \<Rightarrow> string \<Rightarrow> error + state" where
  "newline_mode s newline cs =
     (case indent_loop cs 0 of (rest, indent_level) \<Rightarrow>
        if any_bracket_level s > 0 then Inr (s\<lparr>chars := rest\<rparr>)
        else
          let toks = token_stream s @ [Token [newline] NEWLINE] in
          if indent_level > last_indent_level s then
            (if last_indent_level s - indent_level \<noteq> - 1 then Inl IndentationError
             else
               (case dedent_loop indent_level indent_level (toks @ [Token [] INDENT]) of
                  (last_indent, toks') \<Rightarrow>
                    Inr (s\<lparr>chars := rest, last_indent_level := last_indent,
                           token_stream := toks'\<rparr>)))
          else
            (case dedent_loop indent_level (last_indent_level s) toks of
               (last_indent, toks') \<Rightarrow>
                 Inr (s\<lparr>chars := rest, last_indent_level := last_indent,
                        token_stream := toks'\<rparr>)))"

text \<open>
  Lines 101 to 111: a string literal. \<^verbatim>\<open>cs\<close> is what follows the opening quote; the
  \<^verbatim>\<open>chars.pop(0)\<close> of line 109 removes the closing quote.
\<close>

definition string_mode :: "state \<Rightarrow> char \<Rightarrow> string \<Rightarrow> error + state" where
  "string_mode s quote_type cs =
     (case string_loop quote_type cs [] of
        Inl e \<Rightarrow> Inl e
      | Inr (full_string, rest) \<Rightarrow>
          (case rest of
             [] \<Rightarrow> Inl IndexError
           | close_quote # rest' \<Rightarrow>
               Inr (s\<lparr>chars := rest',
                      token_stream := token_stream s @ [Token full_string STRING]\<rparr>)))"

text \<open>Lines 112 to 118: a one-character symbol; brackets move \<^verbatim>\<open>any_bracket_level\<close>.\<close>

definition symbol_mode :: "state \<Rightarrow> char \<Rightarrow> TokenType \<Rightarrow> string \<Rightarrow> state" where
  "symbol_mode s c ty cs =
     s\<lparr>chars := cs,
       any_bracket_level :=
         (if c \<in> set [CHR ''('', CHR ''{'', CHR ''[''] then any_bracket_level s + 1
          else if c \<in> set [CHR '')'', CHR ''}'', CHR '']''] then any_bracket_level s - 1
          else any_bracket_level s),
       token_stream := token_stream s @ [Token [c] ty]\<rparr>"

text \<open>Lines 119 to 132: a number; \<^verbatim>\<open>cs\<close> is all of \<^verbatim>\<open>chars\<close>, first digit included.\<close>

definition number_mode :: "state \<Rightarrow> string \<Rightarrow> state" where
  "number_mode s cs =
     (case number_loop cs False [] of
        (rest, period_found, full_number) \<Rightarrow>
          s\<lparr>chars := rest,
            token_stream := token_stream s @
              [Token full_number (if period_found then FLOAT else INT_T)]\<rparr>)"

text \<open>Lines 133 to 151: a word, classified as boolean, keyword or identifier.\<close>

definition word_mode :: "state \<Rightarrow> string \<Rightarrow> state" where
  "word_mode s cs =
     (case word_loop cs [] of
        (rest, val) \<Rightarrow>
          if val \<in> set [''true'', ''false'']
          then s\<lparr>chars := rest, token_stream := token_stream s @ [Token val BOOLEAN]\<rparr>
          else
            (case KEYWORDS val of
               Some reserved \<Rightarrow>
                 s\<lparr>chars := rest, token_stream := token_stream s @ [Token val reserved]\<rparr>
             | None \<Rightarrow>
                 s\<lparr>chars := rest, token_stream := token_stream s @ [Token val IDENTIFIER]\<rparr>))"

text \<open>
  The body of \<^verbatim>\<open>while chars:\<close> (lines 72 to 153), in the order of its \<^verbatim>\<open>elif\<close> chain.
  The loop only runs the body on a non-empty \<^verbatim>\<open>chars\<close>; on the empty list the model
  leaves the state as it is.
\<close>

definition step :: "state \<Rightarrow> error + state" where
  "step s =
     (case chars s of
        [] \<Rightarrow> Inr s
      | c # cs \<Rightarrow>
          if c = CHR '' '' then Inr (s\<lparr>chars := cs\<rparr>)
          else if c = CHR 0x0A then newline_mode s c cs
          else if c \<in> set [CHR 0x27, CHR 0x22] then string_mode s c cs
          else
            (case token_map c of
               Some ty \<Rightarrow> Inr (symbol_mode s c ty cs)
             | None \<Rightarrow>
                 if isnumeric c then Inr (number_mode s (c # cs))
                 else if isalpha c then Inr (word_mode s (c # cs))
                 else Inl (UnrecognizedCharacter c)))"

subsection \<open>Every iteration consumes input\<close>

lemma indent_loop_length: "length (fst (indent_loop cs n)) \<le> length cs"
proof (induction cs n rule: indent_loop.induct)
  case (1 cs indent_level)
  show ?case
  proof (cases "take 4 cs = replicate 4 (CHR '' '')")
    case True
    from "1.IH" [OF True] have "length (fst (indent_loop (drop 4 cs) (indent_level + 1))) \<le> length cs"
      by simp
    with True show ?thesis by (subst indent_loop.simps) simp
  next
    case False
    then show ?thesis by (subst indent_loop.simps) simp
  qed
qed

lemma string_loop_length:
  "string_loop q cs acc = Inr (full_string, rest) \<Longrightarrow> rest \<noteq> [] \<and> length rest \<le> length cs"
proof (induction cs arbitrary: acc)
  case Nil
  then show ?case by simp
next
  case (Cons c cs)
  show ?case
  proof (cases "c = q")
    case True
    with Cons.prems show ?thesis by auto
  next
    case False
    with Cons.prems have "string_loop q cs (acc @ [c]) = Inr (full_string, rest)" by simp
    from Cons.IH [OF this] show ?thesis by simp
  qed
qed

lemma number_loop_length: "length (fst (number_loop cs pf acc)) \<le> length cs"
  by (induction cs pf acc rule: number_loop.induct) auto

lemma word_loop_length: "length (fst (word_loop cs acc)) \<le> length cs"
  by (induction cs acc rule: word_loop.induct) auto

lemma newline_mode_length:
  "newline_mode s c cs = Inr s' \<Longrightarrow> length (chars s') \<le> length cs"
  using indent_loop_length [of cs 0]
  by (auto simp: newline_mode_def Let_def split: prod.splits if_splits)

lemma string_mode_length:
  "string_mode s q cs = Inr s' \<Longrightarrow> length (chars s') < length cs"
  by (auto simp: string_mode_def split: sum.splits prod.splits list.splits
      dest!: string_loop_length)

lemma number_mode_length:
  "isnumeric c \<Longrightarrow> length (chars (number_mode s (c # cs))) \<le> length cs"
  using number_loop_length [of cs False "[c]"] number_loop_length [of cs True "[c]"]
  by (auto simp: number_mode_def split: prod.splits)

lemma isalpha_isalnum: "isalpha c \<Longrightarrow> isalnum c"
  by (simp add: isalnum_def)

lemma word_mode_chars: "chars (word_mode s cs) = fst (word_loop cs [])"
  by (auto simp: word_mode_def split: prod.splits option.splits)

lemma word_mode_length:
  "isalpha c \<Longrightarrow> length (chars (word_mode s (c # cs))) \<le> length cs"
  using word_loop_length [of cs "[c]"]
  by (simp add: word_mode_chars isalpha_isalnum)

lemma step_consumes:
  assumes "step s = Inr s'" and "chars s \<noteq> []"
  shows "length (chars s') < length (chars s)"
proof -
  from assms(2) obtain c cs where cs: "chars s = c # cs" by (cases "chars s") auto
  consider (space) "c = CHR '' ''"
    | (newline) "c \<noteq> CHR '' ''" "c = CHR 0x0A"
    | (quote) "c \<noteq> CHR '' ''" "c \<noteq> CHR 0x0A" "c \<in> set [CHR 0x27, CHR 0x22]"
    | (other) "c \<noteq> CHR '' ''" "c \<noteq> CHR 0x0A" "c \<notin> set [CHR 0x27, CHR 0x22]"
    by blast
  then show ?thesis
  proof cases
    case space
    with assms(1) cs show ?thesis by (auto simp: step_def)
  next
    case newline
    with assms(1) cs have "newline_mode s c cs = Inr s'" by (simp add: step_def)
    from newline_mode_length [OF this] cs show ?thesis by simp
  next
    case quote
    with assms(1) cs have "string_mode s c cs = Inr s'" by (simp add: step_def)
    from string_mode_length [OF this] cs show ?thesis by simp
  next
    case other
    show ?thesis
    proof (cases "token_map c")
      case (Some ty)
      with other assms(1) cs have "s' = symbol_mode s c ty cs" by (simp add: step_def)
      with cs show ?thesis by (simp add: symbol_mode_def)
    next
      case None
      show ?thesis
      proof (cases "isnumeric c")
        case True
        with None other assms(1) cs have "s' = number_mode s (c # cs)" by (simp add: step_def)
        with number_mode_length [OF True, of s cs] cs show ?thesis by simp
      next
        case False
        with None other assms(1) cs have a: "isalpha c" and "s' = word_mode s (c # cs)"
          by (auto simp: step_def split: if_splits)
        with word_mode_length [OF a, of s cs] cs show ?thesis by simp
      qed
    qed
  qed
qed

subsection \<open>The main loop and \<^verbatim>\<open>tokenize\<close>\<close>

text \<open>
  \<^verbatim>\<open>while chars:\<close> (line 71): the body runs until no character is left, or an exception
  leaves the function. The loop returns the final values of the local variables.
\<close>

function main_loop :: "state \<Rightarrow> error + state" where
  "main_loop s =
     (if chars s = [] then Inr s
      else (case step s of Inl e \<Rightarrow> Inl e | Inr s' \<Rightarrow> main_loop s'))"
  by pat_completeness auto
termination
  by (relation "measure (\<lambda>s. length (chars s))") (auto simp: step_consumes)

declare main_loop.simps [simp del]

text \<open>Lines 66 to 69: the local variables before the loop.\<close>

definition initial :: "string \<Rightarrow> state" where
  "initial source_code =
     \<lparr>chars = source_code, any_bracket_level = 0, last_indent_level = 0, token_stream = []\<rparr>"

text \<open>Lines 47 to 156: the loop, then the \<^verbatim>\<open>EOF\<close> token of line 155.\<close>

definition tokenize :: "string \<Rightarrow> error + Token list" where
  "tokenize source_code =
     (case main_loop (initial source_code) of
        Inl e \<Rightarrow> Inl e
      | Inr s \<Rightarrow> Inr (token_stream s @ [Token [] EOF]))"

text \<open>
  The first \<open>n\<close> iterations of the main loop: the state they reach, or the exception that
  ended them. A state the scan of an input passes through is one \<open>iterate\<close> reaches from
  the initial state.
\<close>

fun iterate :: "nat \<Rightarrow> state \<Rightarrow> error + state" where
  "iterate 0 s = Inr s"
| "iterate (Suc n) s =
     (if chars s = [] then Inr s
      else (case step s of Inl e \<Rightarrow> Inl e | Inr s' \<Rightarrow> iterate n s'))"

text \<open>How many tokens of a sequence have a given type.\<close>

definition count_type :: "TokenType \<Rightarrow> Token list \<Rightarrow> nat" where
  "count_type ty ts = length (filter (\<lambda>t. type t = ty) ts)"

section \<open>Notions the properties are stated with\<close>

text \<open>
  The character classes of the regular expression \<^verbatim>\<open>[A-Za-z_][A-Za-z0-9_]*\<close> with which
  the specification describes an identifier: \<open>identifier_start\<close> is its first class,
  \<open>identifier_char\<close> its second.
\<close>

definition ascii_letter :: "char \<Rightarrow> bool" where
  "ascii_letter c = (let n = (of_char c :: nat) in (65 \<le> n \<and> n \<le> 90) \<or> (97 \<le> n \<and> n \<le> 122))"

definition ascii_digit :: "char \<Rightarrow> bool" where
  "ascii_digit c = (let n = (of_char c :: nat) in 48 \<le> n \<and> n \<le> 57)"

definition identifier_start :: "char \<Rightarrow> bool" where
  "identifier_start c = (ascii_letter c \<or> c = CHR ''_'')"

definition identifier_char :: "char \<Rightarrow> bool" where
  "identifier_char c = (ascii_letter c \<or> ascii_digit c \<or> c = CHR ''_'')"

text \<open>
  The invariant of the main loop: no token collected so far has the type \<^verbatim>\<open>EOF\<close>, every
  \<^verbatim>\<open>INDENT\<close> and \<^verbatim>\<open>DEDENT\<close> token has the empty value, every \<^verbatim>\<open>NEWLINE\<close> token has the
  newline character as its value, and the \<^verbatim>\<open>INDENT\<close> tokens outnumber the \<^verbatim>\<open>DEDENT\<close>
  tokens by \<^verbatim>\<open>last_indent_level\<close>.
\<close>

definition stream_ok :: "state \<Rightarrow> bool" where
  "stream_ok s =
     ((\<forall>t \<in> set (token_stream s).
         type t \<noteq> EOF \<and>
         (type t = INDENT \<or> type t = DEDENT \<longrightarrow> tvalue t = []) \<and>
         (type t = NEWLINE \<longrightarrow> tvalue t = [CHR 0x0A])) \<and>
      int (count_type INDENT (token_stream s)) - int (count_type DEDENT (token_stream s)) =
        last_indent_level s)"

section \<open>Properties of the main loop\<close>

lemma main_loop_empty: "chars s = [] \<Longrightarrow> main_loop s = Inr s"
  by (subst main_loop.simps) simp

lemma main_loop_step:
  "chars s \<noteq> [] \<Longrightarrow> main_loop s = (case step s of Inl e \<Rightarrow> Inl e | Inr s' \<Rightarrow> main_loop s')"
  by (subst main_loop.simps) simp

lemma main_loop_invariant:
  assumes "main_loop s = Inr s'" and "P s"
    and "\<And>a b. P a \<Longrightarrow> chars a \<noteq> [] \<Longrightarrow> step a = Inr b \<Longrightarrow> P b"
  shows "P s'"
  using assms(1,2)
proof (induction s rule: main_loop.induct)
  case (1 s)
  show ?case
  proof (cases "chars s = []")
    case True
    with "1.prems" show ?thesis by (simp add: main_loop_empty)
  next
    case False
    show ?thesis
    proof (cases "step s")
      case (Inl e)
      with False "1.prems"(1) show ?thesis by (simp add: main_loop_step)
    next
      case (Inr b)
      with False "1.prems"(1) have "main_loop b = Inr s'" by (simp add: main_loop_step)
      moreover from assms(3) [OF "1.prems"(2) False Inr] have "P b" .
      ultimately show ?thesis using "1.IH" [OF False Inr] by blast
    qed
  qed
qed

lemma main_loop_chars: "main_loop s = Inr s' \<Longrightarrow> chars s' = []"
proof (induction s rule: main_loop.induct)
  case (1 s)
  show ?case
  proof (cases "chars s = []")
    case True
    with "1.prems" show ?thesis by (simp add: main_loop_empty)
  next
    case False
    with "1.prems" "1.IH" show ?thesis
      by (auto simp: main_loop_step split: sum.splits)
  qed
qed

lemma iterate_main_loop: "iterate n s = Inr s' \<Longrightarrow> main_loop s = main_loop s'"
proof (induction n arbitrary: s)
  case 0
  then show ?case by simp
next
  case (Suc n)
  show ?case
  proof (cases "chars s = []")
    case True
    with Suc.prems show ?thesis by simp
  next
    case False
    with Suc.prems Suc.IH show ?thesis
      by (auto simp: main_loop_step split: sum.splits)
  qed
qed

lemma iterate_error: "iterate n s = Inl e \<Longrightarrow> main_loop s = Inl e"
proof (induction n arbitrary: s)
  case 0
  then show ?case by simp
next
  case (Suc n)
  then show ?case
    by (cases "chars s = []") (auto simp: main_loop_step split: sum.splits)
qed

lemma iterate_length:
  "iterate n s = Inr s' \<Longrightarrow> chars s' = [] \<or> length (chars s') + n \<le> length (chars s)"
proof (induction n arbitrary: s)
  case 0
  then show ?case by simp
next
  case (Suc n)
  show ?case
  proof (cases "chars s = []")
    case True
    with Suc.prems show ?thesis by simp
  next
    case False
    show ?thesis
    proof (cases "step s")
      case (Inl e)
      with False Suc.prems show ?thesis by simp
    next
      case (Inr b)
      with False Suc.prems have "iterate n b = Inr s'" by simp
      from Suc.IH [OF this] step_consumes [OF Inr False] show ?thesis by auto
    qed
  qed
qed

subsection \<open>The loops in closed form\<close>

lemma dedent_loop_eq:
  "dedent_loop i l toks =
     (if i < l then i else l, toks @ replicate (nat (l - i)) (Token [] DEDENT))"
proof (induction i l toks rule: dedent_loop.induct)
  case (1 i l toks)
  show ?case
  proof (cases "i < l")
    case True
    then have n: "nat (l - i) = Suc (nat (l - 1 - i))" by simp
    from True "1.IH" have "dedent_loop i l toks =
        (if i < l - 1 then i else l - 1,
         (toks @ [Token [] DEDENT]) @ replicate (nat (l - 1 - i)) (Token [] DEDENT))"
      by (subst dedent_loop.simps) simp
    with True show ?thesis by (simp only: n) auto
  next
    case False
    then show ?thesis by (subst dedent_loop.simps) simp
  qed
qed

lemma newline_mode_eq:
  "newline_mode s newline cs =
     (if any_bracket_level s > 0 then Inr (s\<lparr>chars := fst (indent_loop cs 0)\<rparr>)
      else if snd (indent_loop cs 0) > last_indent_level s + 1 then Inl IndentationError
      else if snd (indent_loop cs 0) = last_indent_level s + 1 then
        Inr (s\<lparr>chars := fst (indent_loop cs 0),
               last_indent_level := last_indent_level s + 1,
               token_stream := token_stream s @ [Token [newline] NEWLINE, Token [] INDENT]\<rparr>)
      else
        Inr (s\<lparr>chars := fst (indent_loop cs 0),
               last_indent_level := snd (indent_loop cs 0),
               token_stream := token_stream s @ Token [newline] NEWLINE #
                 replicate (nat (last_indent_level s - snd (indent_loop cs 0)))
                   (Token [] DEDENT)\<rparr>))"
  by (cases "indent_loop cs 0") (auto simp: newline_mode_def Let_def dedent_loop_eq)

lemma string_loop_unterminated:
  "q \<notin> set cs \<Longrightarrow> string_loop q cs acc = Inl IndexError"
  by (induction cs arbitrary: acc) auto

lemma string_loop_terminated:
  "q \<notin> set body \<Longrightarrow> string_loop q (body @ q # rest) acc = Inr (acc @ body, q # rest)"
  by (induction body arbitrary: acc) auto

lemma string_mode_terminated:
  "q \<notin> set body \<Longrightarrow>
     string_mode s q (body @ q # rest) =
       Inr (s\<lparr>chars := rest, token_stream := token_stream s @ [Token body STRING]\<rparr>)"
  by (simp add: string_mode_def string_loop_terminated)

subsection \<open>The dispatch\<close>

lemma step_newline: "chars s = CHR 0x0A # rest \<Longrightarrow> step s = newline_mode s (CHR 0x0A) rest"
  by (simp add: step_def)

lemma step_quote:
  "chars s = q # rest \<Longrightarrow> q \<in> set [CHR 0x27, CHR 0x22] \<Longrightarrow> step s = string_mode s q rest"
  by (auto simp: step_def)

lemma token_map_type:
  "token_map c = Some ty \<Longrightarrow>
     ty \<notin> set [INDENT, DEDENT, NEWLINE, EOF, STRING, IDENTIFIER, INT_T, FLOAT, BOOLEAN, LET, MUT]"
  by (auto simp: token_map_def split: if_splits)

lemma KEYWORDS_type: "KEYWORDS v = Some ty \<Longrightarrow> ty = LET \<or> ty = MUT"
  by (auto simp: KEYWORDS_def split: if_splits)

lemma KEYWORDS_None: "v \<noteq> ''let'' \<Longrightarrow> v \<noteq> ''mut'' \<Longrightarrow> KEYWORDS v = None"
  by (simp add: KEYWORDS_def)

lemma step_tokens:
  assumes "step s = Inr s'" and "chars s = c # cs"
  shows "(c = CHR 0x0A \<and> newline_mode s c cs = Inr s') \<or>
         (c \<noteq> CHR 0x0A \<and> last_indent_level s' = last_indent_level s \<and>
          (token_stream s' = token_stream s \<or>
           (\<exists>v ty. token_stream s' = token_stream s @ [Token v ty] \<and>
              ty \<notin> set [INDENT, DEDENT, NEWLINE, EOF])))"
proof (cases "c = CHR 0x0A")
  case True
  with assms show ?thesis by (simp add: step_def)
next
  case nl: False
  show ?thesis
  proof (cases "c = CHR '' ''")
    case True
    with assms show ?thesis by (auto simp: step_def)
  next
    case sp: False
    show ?thesis
    proof (cases "c \<in> set [CHR 0x27, CHR 0x22]")
      case True
      with nl sp assms have "string_mode s c cs = Inr s'" by (simp add: step_def)
      then have "last_indent_level s' = last_indent_level s \<and>
          (\<exists>v. token_stream s' = token_stream s @ [Token v STRING])"
        by (auto simp: string_mode_def split: sum.splits prod.splits list.splits)
      with nl show ?thesis by auto
    next
      case q: False
      show ?thesis
      proof (cases "token_map c")
        case (Some ty)
        with nl sp q assms have "s' = symbol_mode s c ty cs" by (simp add: step_def)
        with token_map_type [OF Some] nl show ?thesis
          by (auto simp: symbol_mode_def)
      next
        case None
        show ?thesis
        proof (cases "isnumeric c")
          case True
          with None nl sp q assms have "s' = number_mode s (c # cs)" by (simp add: step_def)
          then have "last_indent_level s' = last_indent_level s \<and>
            (\<exists>v ty. token_stream s' = token_stream s @ [Token v ty] \<and> (ty = FLOAT \<or> ty = INT_T))"
            by (cases "number_loop (c # cs) False []") (auto simp: number_mode_def simp del: number_loop.simps)
          with nl show ?thesis by auto
        next
          case False
          with None nl sp q assms have "s' = word_mode s (c # cs)"
            by (auto simp: step_def split: if_splits)
          then have "last_indent_level s' = last_indent_level s \<and>
            (\<exists>v ty. token_stream s' = token_stream s @ [Token v ty] \<and>
               (ty = BOOLEAN \<or> ty = LET \<or> ty = MUT \<or> ty = IDENTIFIER))"
            by (cases "word_loop (c # cs) []")
               (auto simp: word_mode_def simp del: word_loop.simps split: option.splits dest: KEYWORDS_type)
          with nl show ?thesis by auto
        qed
      qed
    qed
  qed
qed

lemma main_loop_error: "chars s \<noteq> [] \<Longrightarrow> step s = Inl e \<Longrightarrow> main_loop s = Inl e"
  by (simp add: main_loop_step)

lemma iterate_tokenize_error:
  assumes "iterate n (initial source_code) = Inr s" and "chars s \<noteq> []" and "step s = Inl e"
  shows "tokenize source_code = Inl e"
proof -
  from iterate_main_loop [OF assms(1)] main_loop_error [OF assms(2,3)]
  have "main_loop (initial source_code) = Inl e" by simp
  then show ?thesis by (simp add: tokenize_def)
qed

lemma tokenize_Inr:
  "tokenize source_code = Inr ts \<Longrightarrow>
     \<exists>s. main_loop (initial source_code) = Inr s \<and> ts = token_stream s @ [Token [] EOF]"
  by (auto simp: tokenize_def split: sum.splits)

subsection \<open>The invariant of the token stream\<close>

lemma count_type_append [simp]:
  "count_type ty (xs @ ys) = count_type ty xs + count_type ty ys"
  by (simp add: count_type_def)

lemma count_type_Cons [simp]:
  "count_type ty (x # xs) = (if type x = ty then Suc (count_type ty xs) else count_type ty xs)"
  by (simp add: count_type_def)

lemma count_type_Nil [simp]: "count_type ty [] = 0"
  by (simp add: count_type_def)

lemma count_type_replicate [simp]:
  "count_type ty (replicate n x) = (if type x = ty then n else 0)"
  by (induction n) auto

lemma type_Token [simp]: "type (Token v ty) = ty"
  by (simp add: Token_def)

lemma tvalue_Token [simp]: "tvalue (Token v ty) = v"
  by (simp add: Token_def)

lemma stream_ok_initial: "stream_ok (initial source_code)"
  by (simp add: stream_ok_def initial_def)

lemma newline_mode_stream_ok:
  assumes "stream_ok s" and "newline_mode s (CHR 0x0A) cs = Inr s'"
  shows "stream_ok s'"
proof -
  let ?i = "snd (indent_loop cs 0)"
  consider (bracket) "any_bracket_level s > 0"
    | (indent) "\<not> any_bracket_level s > 0" "?i = last_indent_level s + 1"
    | (dedent) "\<not> any_bracket_level s > 0" "?i \<le> last_indent_level s"
    using assms(2) by (auto simp: newline_mode_eq split: if_splits)
  then show ?thesis
  proof cases
    case bracket
    with assms show ?thesis by (auto simp: newline_mode_eq stream_ok_def)
  next
    case indent
    with assms(2) have "s' = s\<lparr>chars := fst (indent_loop cs 0),
               last_indent_level := last_indent_level s + 1,
               token_stream := token_stream s @ [Token [CHR 0x0A] NEWLINE, Token [] INDENT]\<rparr>"
      by (simp add: newline_mode_eq)
    with assms(1) show ?thesis by (auto simp: stream_ok_def)
  next
    case dedent
    with assms(2) have "s' = s\<lparr>chars := fst (indent_loop cs 0),
               last_indent_level := ?i,
               token_stream := token_stream s @ Token [CHR 0x0A] NEWLINE #
                 replicate (nat (last_indent_level s - ?i)) (Token [] DEDENT)\<rparr>"
      by (simp add: newline_mode_eq)
    with assms(1) dedent(2) show ?thesis by (auto simp: stream_ok_def)
  qed
qed

lemma step_stream_ok:
  assumes "stream_ok s" and "chars s \<noteq> []" and "step s = Inr s'"
  shows "stream_ok s'"
proof -
  from assms(2) obtain c cs where cs: "chars s = c # cs" by (cases "chars s") auto
  from step_tokens [OF assms(3) cs] show ?thesis
  proof (elim disjE conjE exE)
    assume "c = CHR 0x0A" "newline_mode s c cs = Inr s'"
    with assms(1) show ?thesis by (auto intro: newline_mode_stream_ok)
  next
    assume "last_indent_level s' = last_indent_level s" "token_stream s' = token_stream s"
    with assms(1) show ?thesis by (simp add: stream_ok_def)
  next
    fix v ty
    assume "last_indent_level s' = last_indent_level s"
      "token_stream s' = token_stream s @ [Token v ty]"
      "ty \<notin> set [INDENT, DEDENT, NEWLINE, EOF]"
    with assms(1) show ?thesis by (auto simp: stream_ok_def)
  qed
qed

lemma main_loop_stream_ok:
  "main_loop (initial source_code) = Inr s \<Longrightarrow> stream_ok s"
  by (rule main_loop_invariant [where P = stream_ok])
     (auto intro: stream_ok_initial step_stream_ok)

subsection \<open>Words\<close>

lemma symbol_not_letter:
  "c \<in> set [CHR '' '', CHR 0x0A, CHR 0x27, CHR 0x22, CHR ''='', CHR ''+'', CHR ''-'', CHR ''*'',
      CHR ''/'', CHR ''%'', CHR ''.'', CHR '','', CHR '':'', CHR ''('', CHR '')'', CHR ''{'',
      CHR ''}'', CHR ''['', CHR '']''] \<Longrightarrow> \<not> ascii_letter c"
  by (auto simp: ascii_letter_def)

lemma ascii_letter_not_symbol:
  "ascii_letter c \<Longrightarrow>
   c \<notin> set [CHR '' '', CHR 0x0A, CHR 0x27, CHR 0x22, CHR ''='', CHR ''+'', CHR ''-'', CHR ''*'',
      CHR ''/'', CHR ''%'', CHR ''.'', CHR '','', CHR '':'', CHR ''('', CHR '')'', CHR ''{'',
      CHR ''}'', CHR ''['', CHR '']'']"
  using symbol_not_letter [of c] by blast

lemma ascii_letter_token_map: "ascii_letter c \<Longrightarrow> token_map c = None"
  using ascii_letter_not_symbol [of c] by (simp add: token_map_def)

lemma ascii_letter_isalpha: "ascii_letter c \<Longrightarrow> isalpha c"
  unfolding ascii_letter_def isalpha_def Let_def by blast

lemma ascii_letter_not_isnumeric: "ascii_letter c \<Longrightarrow> \<not> isnumeric c"
  by (auto simp: ascii_letter_def isnumeric_def Let_def)

lemma identifier_char_word: "identifier_char c \<Longrightarrow> isalnum c \<or> c = CHR ''_''"
  unfolding identifier_char_def ascii_letter_def ascii_digit_def isalnum_def
    isalpha_def isnumeric_def Let_def
  by blast

lemma word_mode_step:
  assumes "ascii_letter c" and "chars s = c # cs"
  shows "step s = Inr (word_mode s (c # cs))"
proof -
  from ascii_letter_not_symbol [OF assms(1)]
  have "c \<noteq> CHR '' ''" "c \<noteq> CHR 0x0A" "c \<notin> set [CHR 0x27, CHR 0x22]"
    by simp_all
  with assms(2) ascii_letter_token_map [OF assms(1)] ascii_letter_isalpha [OF assms(1)]
    ascii_letter_not_isnumeric [OF assms(1)]
  show ?thesis by (simp add: step_def)
qed

lemma word_loop_run:
  assumes "list_all identifier_char cs"
    and "case rest of [] \<Rightarrow> True | d # _ \<Rightarrow> \<not> isalnum d \<and> d \<noteq> CHR ''_''"
  shows "word_loop (cs @ rest) acc = (rest, acc @ cs)"
  using assms(1)
proof (induction cs arbitrary: acc)
  case Nil
  with assms(2) show ?case by (cases rest) auto
next
  case (Cons c cs)
  then have "isalnum c \<or> c = CHR ''_''" by (simp add: identifier_char_word)
  with Cons show ?case by simp
qed

section \<open>The claims\<close>

text \<open>
  C1, as the code has it: a run made of an ASCII letter followed by ASCII letters, digits
  and underscores, other than \<^verbatim>\<open>true\<close>, \<^verbatim>\<open>false\<close>, \<^verbatim>\<open>let\<close> and \<^verbatim>\<open>mut\<close>, becomes exactly
  one \<^verbatim>\<open>IDENTIFIER\<close> token whose value is the run. When an iteration of the main loop finds
  the run at the front of the remaining input, followed by the end of the input or by a
  character that is neither alphanumeric nor an underscore, it consumes the run and nothing
  else and appends that one token; and when the run is the whole input, \<^verbatim>\<open>tokenize\<close> returns
  the token and \<^verbatim>\<open>EOF\<close>.
\<close>

theorem identifier_classification:
  assumes "ascii_letter c" and "list_all identifier_char cs"
    and "c # cs \<notin> set [''true'', ''false'', ''let'', ''mut'']"
  shows "(\<forall>s rest. chars s = c # cs @ rest \<and>
            (case rest of [] \<Rightarrow> True | d # _ \<Rightarrow> \<not> isalnum d \<and> d \<noteq> CHR ''_'') \<longrightarrow>
            step s = Inr (s\<lparr>chars := rest,
                            token_stream := token_stream s @ [Token (c # cs) IDENTIFIER]\<rparr>)) \<and>
         tokenize (c # cs) = Inr [Token (c # cs) IDENTIFIER, Token [] EOF]"
proof -
  have st: "step s = Inr (s\<lparr>chars := rest,
                 token_stream := token_stream s @ [Token (c # cs) IDENTIFIER]\<rparr>)"
    if cs: "chars s = c # cs @ rest"
      and d: "case rest of [] \<Rightarrow> True | d # _ \<Rightarrow> \<not> isalnum d \<and> d \<noteq> CHR ''_''"
    for s rest
  proof -
    from assms(1) have "identifier_char c" by (simp add: identifier_char_def)
    with assms(2) have "list_all identifier_char (c # cs)" by simp
    from word_loop_run [OF this d, of "[]"]
    have w: "word_loop (c # cs @ rest) [] = (rest, c # cs)" by simp
    from assms(3) have k: "KEYWORDS (c # cs) = None" by (simp add: KEYWORDS_None)
    from assms(3) w k have "word_mode s (c # cs @ rest) =
        s\<lparr>chars := rest, token_stream := token_stream s @ [Token (c # cs) IDENTIFIER]\<rparr>"
      by (auto simp: word_mode_def simp del: word_loop.simps)
    with word_mode_step [OF assms(1) cs] show ?thesis
      by simp
  qed
  let ?s = "initial (c # cs)"
  have "chars ?s = c # cs @ []" by (simp add: initial_def)
  from st [OF this]
  have "step ?s = Inr (?s\<lparr>chars := [],
      token_stream := token_stream ?s @ [Token (c # cs) IDENTIFIER]\<rparr>)"
    by simp
  then have "main_loop ?s = Inr (?s\<lparr>chars := [],
      token_stream := token_stream ?s @ [Token (c # cs) IDENTIFIER]\<rparr>)"
    by (simp add: main_loop_step main_loop_empty initial_def)
  then have "tokenize (c # cs) = Inr [Token (c # cs) IDENTIFIER, Token [] EOF]"
    by (simp add: tokenize_def initial_def)
  with st show ?thesis by blast
qed

theorem identifier_classification_witness:
  "(ascii_letter CHR ''x'' \<and> list_all identifier_char ''_1'' \<and>
    ''x_1'' \<notin> set [''true'', ''false'', ''let'', ''mut'']) \<and>
   step \<lparr>chars = ''x_1 = 2'', any_bracket_level = 0, last_indent_level = 0, token_stream = []\<rparr> =
     Inr \<lparr>chars = '' = 2'', any_bracket_level = 0, last_indent_level = 0,
          token_stream = [Token ''x_1'' IDENTIFIER]\<rparr> \<and>
   tokenize ''x_1'' = Inr [Token ''x_1'' IDENTIFIER, Token [] EOF]"
proof -
  have h1: "ascii_letter CHR ''x''" by code_simp
  have h2: "list_all identifier_char ''_1''" by code_simp
  have h3: "''x_1'' \<notin> set [''true'', ''false'', ''let'', ''mut'']" by simp
  let ?s = "\<lparr>chars = ''x_1 = 2'', any_bracket_level = 0, last_indent_level = 0,
             token_stream = []\<rparr>"
  have h4: "chars ?s = CHR ''x'' # ''_1'' @ '' = 2'' \<and>
     (case '' = 2'' of [] \<Rightarrow> True | d # _ \<Rightarrow> \<not> isalnum d \<and> d \<noteq> CHR ''_'')"
    by code_simp
  note t = identifier_classification [OF h1 h2 h3]
  from t [THEN conjunct1, rule_format, OF h4] t [THEN conjunct2] h1 h2 h3
  show ?thesis by simp
qed

text \<open>
  The property as the specification words it also covers a run that begins with an
  underscore, and a run anywhere in the input between two characters that are not word
  characters. The main loop enters the word scanner on an alphabetic character only (line
  133), so the input \<^verbatim>\<open>_a\<close> is refused at its first character; and the run \<^verbatim>\<open>ab\<close> between
  two quotes is the body of a string literal.
\<close>

theorem identifier_classification_counterexample:
  "(identifier_start CHR ''_'' \<and> list_all identifier_char ''a'' \<and>
    ''_a'' \<notin> set [''true'', ''false'', ''let'', ''mut''] \<and>
    tokenize ''_a'' = Inl (UnrecognizedCharacter CHR ''_'')) \<and>
   (identifier_start CHR ''a'' \<and> list_all identifier_char ''b'' \<and>
    ''ab'' \<notin> set [''true'', ''false'', ''let'', ''mut''] \<and>
    tokenize [CHR 0x27, CHR ''a'', CHR ''b'', CHR 0x27] = Inr [Token ''ab'' STRING, Token [] EOF])"
  by code_simp

text \<open>
  C2, as the code has it: in every sequence \<^verbatim>\<open>tokenize\<close> returns, every \<^verbatim>\<open>INDENT\<close> and every
  \<^verbatim>\<open>DEDENT\<close> token has the empty value, and every \<^verbatim>\<open>NEWLINE\<close> token has the one-character
  value consisting of the newline that was consumed (line 87).
\<close>

theorem structural_token_values:
  "tokenize source_code = Inr ts \<Longrightarrow> t \<in> set ts \<Longrightarrow>
     (type t = INDENT \<or> type t = DEDENT \<longrightarrow> tvalue t = []) \<and>
     (type t = NEWLINE \<longrightarrow> tvalue t = [CHR 0x0A])"
proof -
  assume "tokenize source_code = Inr ts" and t: "t \<in> set ts"
  then obtain s where s: "main_loop (initial source_code) = Inr s"
    and ts: "ts = token_stream s @ [Token [] EOF]"
    using tokenize_Inr by blast
  from t ts have "t \<in> set (token_stream s) \<or> t = Token [] EOF" by auto
  with main_loop_stream_ok [OF s] show ?thesis
    by (auto simp: stream_ok_def)
qed

theorem structural_token_values_witness:
  "tokenize ''a\<newline>    b\<newline>c'' =
     Inr [Token ''a'' IDENTIFIER, Token ''\<newline>'' NEWLINE, Token [] INDENT, Token ''b'' IDENTIFIER,
          Token ''\<newline>'' NEWLINE, Token [] DEDENT, Token ''c'' IDENTIFIER, Token [] EOF] \<and>
   Token ''\<newline>'' NEWLINE \<in> set [Token ''a'' IDENTIFIER, Token ''\<newline>'' NEWLINE, Token [] INDENT,
          Token ''b'' IDENTIFIER, Token ''\<newline>'' NEWLINE, Token [] DEDENT, Token ''c'' IDENTIFIER,
          Token [] EOF] \<and>
   tvalue (Token ''\<newline>'' NEWLINE) = [CHR 0x0A]"
proof -
  have h1: "tokenize ''a\<newline>    b\<newline>c'' =
     Inr [Token ''a'' IDENTIFIER, Token ''\<newline>'' NEWLINE, Token [] INDENT, Token ''b'' IDENTIFIER,
          Token ''\<newline>'' NEWLINE, Token [] DEDENT, Token ''c'' IDENTIFIER, Token [] EOF]"
    by code_simp
  have h2: "Token ''\<newline>'' NEWLINE \<in> set [Token ''a'' IDENTIFIER, Token ''\<newline>'' NEWLINE,
          Token [] INDENT, Token ''b'' IDENTIFIER, Token ''\<newline>'' NEWLINE, Token [] DEDENT,
          Token ''c'' IDENTIFIER, Token [] EOF]"
    by simp
  from structural_token_values [OF h1 h2] h1 h2 show ?thesis by simp
qed

text \<open>
  The property as the specification words it gives the \<^verbatim>\<open>NEWLINE\<close> token the empty value
  as well; on the input consisting of one newline the token carries that newline.
\<close>

theorem structural_token_values_counterexample:
  "tokenize ''\<newline>'' = Inr [Token ''\<newline>'' NEWLINE, Token [] EOF] \<and>
   type (Token ''\<newline>'' NEWLINE) = NEWLINE \<and> tvalue (Token ''\<newline>'' NEWLINE) \<noteq> []"
  by code_simp

text \<open>
  C3: when the scan of an input reaches a newline with \<^verbatim>\<open>any_bracket_level\<close> equal to 0, and
  the indentation counted after the newline exceeds \<^verbatim>\<open>last_indent_level\<close> by more than one
  unit, that iteration raises \<^verbatim>\<open>IndentationError\<close> and so does \<^verbatim>\<open>tokenize\<close>, which returns
  no tokens. In particular \<^verbatim>\<open>tokenize\<close> fails so on \<^verbatim>\<open>let x = 5\<close>, a newline, eight spaces
  and \<^verbatim>\<open>y = 2\<close>.
\<close>

theorem indentation_jump_fails:
  "(\<forall>source_code n s rest.
      iterate n (initial source_code) = Inr s \<and> chars s = CHR 0x0A # rest \<and>
      any_bracket_level s = 0 \<and> snd (indent_loop rest 0) > last_indent_level s + 1 \<longrightarrow>
      step s = Inl IndentationError \<and> tokenize source_code = Inl IndentationError) \<and>
   tokenize ''let x = 5\<newline>        y = 2'' = Inl IndentationError"
proof (intro conjI allI impI)
  show "tokenize ''let x = 5\<newline>        y = 2'' = Inl IndentationError"
    by code_simp
next
  fix source_code n rest and s :: state
  assume a: "iterate n (initial source_code) = Inr s \<and> chars s = CHR 0x0A # rest \<and>
      any_bracket_level s = 0 \<and> snd (indent_loop rest 0) > last_indent_level s + 1"
  then show e: "step s = Inl IndentationError"
    by (simp add: step_newline newline_mode_eq)
  from a have "chars s \<noteq> []" by auto
  with a e show "tokenize source_code = Inl IndentationError"
    by (blast intro: iterate_tokenize_error)
qed

theorem indentation_jump_fails_witness:
  "(iterate 7 (initial ''let x = 5\<newline>        y = 2'') =
      Inr \<lparr>chars = ''\<newline>        y = 2'', any_bracket_level = 0, last_indent_level = 0,
           token_stream = [Token ''let'' LET, Token ''x'' IDENTIFIER, Token ''='' EQUALS,
                           Token ''5'' INT_T]\<rparr> \<and>
    snd (indent_loop ''        y = 2'' 0) = 2) \<and>
   step \<lparr>chars = ''\<newline>        y = 2'', any_bracket_level = 0, last_indent_level = 0,
           token_stream = [Token ''let'' LET, Token ''x'' IDENTIFIER, Token ''='' EQUALS,
                           Token ''5'' INT_T]\<rparr> = Inl IndentationError \<and>
   tokenize ''let x = 5\<newline>        y = 2'' = Inl IndentationError"
proof -
  let ?s = "\<lparr>chars = ''\<newline>        y = 2'', any_bracket_level = 0, last_indent_level = 0,
           token_stream = [Token ''let'' LET, Token ''x'' IDENTIFIER, Token ''='' EQUALS,
                           Token ''5'' INT_T]\<rparr>"
  have h1: "iterate 7 (initial ''let x = 5\<newline>        y = 2'') = Inr ?s"
    by code_simp
  have h2: "snd (indent_loop ''        y = 2'' 0) = 2"
    by code_simp
  have "iterate 7 (initial ''let x = 5\<newline>        y = 2'') = Inr ?s \<and>
      chars ?s = CHR 0x0A # ''        y = 2'' \<and> any_bracket_level ?s = 0 \<and>
      snd (indent_loop ''        y = 2'' 0) > last_indent_level ?s + 1"
    using h1 h2 by simp
  from indentation_jump_fails [THEN conjunct1, rule_format, OF this] h1 h2
  show ?thesis by simp
qed

text \<open>
  C4: an iteration that finds a newline while \<^verbatim>\<open>any_bracket_level\<close> is positive appends no
  token and leaves \<^verbatim>\<open>last_indent_level\<close> (and \<^verbatim>\<open>any_bracket_level\<close>) as they were; it only
  consumes the newline and the indentation after it. On an open parenthesis, a newline,
  four spaces, \<^verbatim>\<open>1\<close>, a newline and a closing parenthesis, \<^verbatim>\<open>tokenize\<close> returns exactly
  \<^verbatim>\<open>OPEN_PAREN\<close>, \<^verbatim>\<open>INT\<close>, \<^verbatim>\<open>CLOSE_PAREN\<close> and \<^verbatim>\<open>EOF\<close>.
\<close>

theorem newline_in_brackets_ignored:
  "(\<forall>s rest. chars s = CHR 0x0A # rest \<and> any_bracket_level s > 0 \<longrightarrow>
      (\<exists>s'. step s = Inr s' \<and> token_stream s' = token_stream s \<and>
            last_indent_level s' = last_indent_level s \<and>
            any_bracket_level s' = any_bracket_level s \<and>
            chars s' = fst (indent_loop rest 0))) \<and>
   tokenize ''(\<newline>    1\<newline>)'' =
     Inr [Token ''('' OPEN_PAREN, Token ''1'' INT_T, Token '')'' CLOSE_PAREN, Token [] EOF]"
proof (intro conjI allI impI)
  show "tokenize ''(\<newline>    1\<newline>)'' =
     Inr [Token ''('' OPEN_PAREN, Token ''1'' INT_T, Token '')'' CLOSE_PAREN, Token [] EOF]"
    by code_simp
next
  fix s :: state and rest
  assume "chars s = CHR 0x0A # rest \<and> any_bracket_level s > 0"
  then have "step s = Inr (s\<lparr>chars := fst (indent_loop rest 0)\<rparr>)"
    by (simp add: step_newline newline_mode_eq)
  then show "\<exists>s'. step s = Inr s' \<and> token_stream s' = token_stream s \<and>
            last_indent_level s' = last_indent_level s \<and>
            any_bracket_level s' = any_bracket_level s \<and>
            chars s' = fst (indent_loop rest 0)"
    by simp
qed

theorem newline_in_brackets_ignored_witness:
  "(chars \<lparr>chars = ''\<newline>    1\<newline>)'', any_bracket_level = 1, last_indent_level = 0,
           token_stream = [Token ''('' OPEN_PAREN]\<rparr> = CHR 0x0A # ''    1\<newline>)'' \<and>
    any_bracket_level \<lparr>chars = ''\<newline>    1\<newline>)'', any_bracket_level = 1, last_indent_level = 0,
           token_stream = [Token ''('' OPEN_PAREN]\<rparr> > 0) \<and>
   step \<lparr>chars = ''\<newline>    1\<newline>)'', any_bracket_level = 1, last_indent_level = 0,
           token_stream = [Token ''('' OPEN_PAREN]\<rparr> =
     Inr \<lparr>chars = ''1\<newline>)'', any_bracket_level = 1, last_indent_level = 0,
           token_stream = [Token ''('' OPEN_PAREN]\<rparr>"
proof -
  let ?s = "\<lparr>chars = ''\<newline>    1\<newline>)'', any_bracket_level = 1, last_indent_level = 0,
           token_stream = [Token ''('' OPEN_PAREN]\<rparr>"
  have h: "chars ?s = CHR 0x0A # ''    1\<newline>)'' \<and> any_bracket_level ?s > 0" by simp
  have i: "fst (indent_loop ''    1\<newline>)'' 0) = ''1\<newline>)''" by code_simp
  from newline_in_brackets_ignored [THEN conjunct1, rule_format, OF h]
  obtain s' where "step ?s = Inr s'" "token_stream s' = token_stream ?s"
    "last_indent_level s' = last_indent_level ?s" "any_bracket_level s' = any_bracket_level ?s"
    "chars s' = fst (indent_loop ''    1\<newline>)'' 0)"
    by blast
  with i have "step ?s = Inr \<lparr>chars = ''1\<newline>)'', any_bracket_level = 1, last_indent_level = 0,
           token_stream = [Token ''('' OPEN_PAREN]\<rparr>"
    by (cases s') simp
  with h show ?thesis by simp
qed

text \<open>
  C5: whenever \<^verbatim>\<open>tokenize\<close> returns, the number of \<^verbatim>\<open>INDENT\<close> tokens minus the number of
  \<^verbatim>\<open>DEDENT\<close> tokens of its result is the value \<^verbatim>\<open>last_indent_level\<close> has when the main loop
  ends. Indentation still open at the end of the input is not closed: on \<^verbatim>\<open>a\<close>, a newline,
  four spaces and \<^verbatim>\<open>b\<close> the loop ends with \<^verbatim>\<open>last_indent_level\<close> equal to 1.
\<close>

theorem indent_balance:
  "(\<forall>source_code ts. tokenize source_code = Inr ts \<longrightarrow>
      (\<exists>s. main_loop (initial source_code) = Inr s \<and>
           int (count_type INDENT ts) - int (count_type DEDENT ts) = last_indent_level s)) \<and>
   main_loop (initial ''a\<newline>    b'') =
     Inr \<lparr>chars = [], any_bracket_level = 0, last_indent_level = 1,
          token_stream = [Token ''a'' IDENTIFIER, Token ''\<newline>'' NEWLINE, Token [] INDENT,
                          Token ''b'' IDENTIFIER]\<rparr>"
proof (intro conjI allI impI)
  show "main_loop (initial ''a\<newline>    b'') =
     Inr \<lparr>chars = [], any_bracket_level = 0, last_indent_level = 1,
          token_stream = [Token ''a'' IDENTIFIER, Token ''\<newline>'' NEWLINE, Token [] INDENT,
                          Token ''b'' IDENTIFIER]\<rparr>"
    by code_simp
next
  fix source_code ts
  assume "tokenize source_code = Inr ts"
  then obtain s where s: "main_loop (initial source_code) = Inr s"
    and ts: "ts = token_stream s @ [Token [] EOF]"
    using tokenize_Inr by blast
  from main_loop_stream_ok [OF s] ts
  have "int (count_type INDENT ts) - int (count_type DEDENT ts) = last_indent_level s"
    by (simp add: stream_ok_def)
  with s show "\<exists>s. main_loop (initial source_code) = Inr s \<and>
           int (count_type INDENT ts) - int (count_type DEDENT ts) = last_indent_level s"
    by blast
qed

theorem indent_balance_witness:
  "tokenize ''a\<newline>    b'' =
     Inr [Token ''a'' IDENTIFIER, Token ''\<newline>'' NEWLINE, Token [] INDENT, Token ''b'' IDENTIFIER,
          Token [] EOF] \<and>
   (\<exists>s. main_loop (initial ''a\<newline>    b'') = Inr s \<and>
        int (count_type INDENT [Token ''a'' IDENTIFIER, Token ''\<newline>'' NEWLINE, Token [] INDENT,
               Token ''b'' IDENTIFIER, Token [] EOF]) -
        int (count_type DEDENT [Token ''a'' IDENTIFIER, Token ''\<newline>'' NEWLINE, Token [] INDENT,
               Token ''b'' IDENTIFIER, Token [] EOF]) = last_indent_level s)"
proof -
  have h: "tokenize ''a\<newline>    b'' =
     Inr [Token ''a'' IDENTIFIER, Token ''\<newline>'' NEWLINE, Token [] INDENT, Token ''b'' IDENTIFIER,
          Token [] EOF]"
    by code_simp
  from indent_balance [THEN conjunct1, rule_format, OF h] h show ?thesis by blast
qed

text \<open>
  C6: every sequence \<^verbatim>\<open>tokenize\<close> returns is non-empty, its last element is the \<^verbatim>\<open>EOF\<close>
  token with the empty value, exactly one of its tokens has the type \<^verbatim>\<open>EOF\<close>, and a token
  of that type stands at the last position only. On the empty input the result is that
  one token.
\<close>

theorem tokenize_ends_with_EOF:
  "(\<forall>source_code ts. tokenize source_code = Inr ts \<longrightarrow>
      ts \<noteq> [] \<and> last ts = Token [] EOF \<and> count_type EOF ts = 1 \<and>
      (\<forall>i. i < length ts \<and> type (ts ! i) = EOF \<longrightarrow> i = length ts - 1)) \<and>
   tokenize [] = Inr [Token [] EOF]"
proof (intro conjI allI impI)
  show "tokenize [] = Inr [Token [] EOF]"
    by (simp add: tokenize_def initial_def main_loop_empty)
next
  fix source_code ts
  assume "tokenize source_code = Inr ts"
  then obtain s where s: "main_loop (initial source_code) = Inr s"
    and ts: "ts = token_stream s @ [Token [] EOF]"
    using tokenize_Inr by blast
  from main_loop_stream_ok [OF s] have no: "\<forall>t \<in> set (token_stream s). type t \<noteq> EOF"
    by (simp add: stream_ok_def)
  then have f: "filter (\<lambda>t. type t = EOF) (token_stream s) = []"
    by (simp add: filter_empty_conv)
  show "ts \<noteq> []" using ts by simp
  show "last ts = Token [] EOF" using ts by simp
  show "count_type EOF ts = 1" using ts f by (simp add: count_type_def)
  fix i
  assume i: "i < length ts \<and> type (ts ! i) = EOF"
  show "i = length ts - 1"
  proof (rule ccontr)
    assume "i \<noteq> length ts - 1"
    with i ts have l: "i < length (token_stream s)" by simp
    then have "ts ! i \<in> set (token_stream s)" using ts by (simp add: nth_append)
    with no i show False by blast
  qed
qed

theorem tokenize_ends_with_EOF_witness:
  "tokenize ''let x = 5'' =
     Inr [Token ''let'' LET, Token ''x'' IDENTIFIER, Token ''='' EQUALS, Token ''5'' INT_T,
          Token [] EOF] \<and>
   last [Token ''let'' LET, Token ''x'' IDENTIFIER, Token ''='' EQUALS, Token ''5'' INT_T,
          Token [] EOF] = Token [] EOF \<and>
   count_type EOF [Token ''let'' LET, Token ''x'' IDENTIFIER, Token ''='' EQUALS,
          Token ''5'' INT_T, Token [] EOF] = 1"
proof -
  have h: "tokenize ''let x = 5'' =
     Inr [Token ''let'' LET, Token ''x'' IDENTIFIER, Token ''='' EQUALS, Token ''5'' INT_T,
          Token [] EOF]"
    by code_simp
  from tokenize_ends_with_EOF [THEN conjunct1, rule_format, OF h] h show ?thesis
    by blast
qed

text \<open>
  C7: for a quote character (single or double) and any body in which that character does
  not occur, \<^verbatim>\<open>tokenize\<close> of the body between two such quotes returns one \<^verbatim>\<open>STRING\<close> token
  whose value is the body, character for character, followed by \<^verbatim>\<open>EOF\<close>.
\<close>

theorem string_literal_roundtrip:
  "q \<in> set [CHR 0x27, CHR 0x22] \<Longrightarrow> q \<notin> set body \<Longrightarrow>
     tokenize (q # body @ [q]) = Inr [Token body STRING, Token [] EOF]"
proof -
  assume q: "q \<in> set [CHR 0x27, CHR 0x22]" and no: "q \<notin> set body"
  let ?s = "initial (q # body @ [q])"
  have cs: "chars ?s = q # body @ [q]" by (simp add: initial_def)
  from step_quote [OF cs q] string_mode_terminated [OF no, of ?s "[]"]
  have "step ?s = Inr (?s\<lparr>chars := [], token_stream := token_stream ?s @ [Token body STRING]\<rparr>)"
    by simp
  with cs have "main_loop ?s =
      Inr (?s\<lparr>chars := [], token_stream := token_stream ?s @ [Token body STRING]\<rparr>)"
    by (simp add: main_loop_step main_loop_empty)
  then show ?thesis by (simp add: tokenize_def initial_def)
qed

theorem string_literal_roundtrip_witness:
  "(CHR 0x27 \<in> set [CHR 0x27, CHR 0x22] \<and> CHR 0x27 \<notin> set ''say \"hi\"'') \<and>
   tokenize (CHR 0x27 # ''say \"hi\"'' @ [CHR 0x27]) =
     Inr [Token ''say \"hi\"'' STRING, Token [] EOF]"
proof -
  have h1: "CHR 0x27 \<in> set [CHR 0x27, CHR 0x22]" by simp
  have h2: "CHR 0x27 \<notin> set ''say \"hi\"''" by simp
  from string_literal_roundtrip [OF h1 h2] h1 h2 show ?thesis by simp
qed

text \<open>
  C8: when the scan of an input reaches an opening quote and no character equal to it
  follows in the rest of the input, that iteration fails reading past the end of the
  input (\<^verbatim>\<open>IndexError\<close>), and \<^verbatim>\<open>tokenize\<close> fails with it and returns no tokens.
\<close>

theorem unterminated_string_fails:
  "iterate n (initial source_code) = Inr s \<Longrightarrow> chars s = q # rest \<Longrightarrow>
   q \<in> set [CHR 0x27, CHR 0x22] \<Longrightarrow> q \<notin> set rest \<Longrightarrow>
     step s = Inl IndexError \<and> tokenize source_code = Inl IndexError"
proof -
  assume it: "iterate n (initial source_code) = Inr s" and cs: "chars s = q # rest"
    and q: "q \<in> set [CHR 0x27, CHR 0x22]" and no: "q \<notin> set rest"
  from step_quote [OF cs q] no have e: "step s = Inl IndexError"
    by (simp add: string_mode_def string_loop_unterminated)
  from cs have "chars s \<noteq> []" by simp
  from iterate_tokenize_error [OF it this e] e show ?thesis by simp
qed

theorem unterminated_string_fails_witness:
  "(iterate 4 (initial ''x = \"ab'') =
      Inr \<lparr>chars = ''\"ab'', any_bracket_level = 0, last_indent_level = 0,
           token_stream = [Token ''x'' IDENTIFIER, Token ''='' EQUALS]\<rparr> \<and>
    CHR 0x22 \<notin> set ''ab'') \<and>
   step \<lparr>chars = ''\"ab'', any_bracket_level = 0, last_indent_level = 0,
         token_stream = [Token ''x'' IDENTIFIER, Token ''='' EQUALS]\<rparr> = Inl IndexError \<and>
   tokenize ''x = \"ab'' = Inl IndexError"
proof -
  let ?s = "\<lparr>chars = ''\"ab'', any_bracket_level = 0, last_indent_level = 0,
           token_stream = [Token ''x'' IDENTIFIER, Token ''='' EQUALS]\<rparr>"
  have h1: "iterate 4 (initial ''x = \"ab'') = Inr ?s" by code_simp
  have h2: "chars ?s = CHR 0x22 # ''ab''" by simp
  have h3: "CHR 0x22 \<in> set [CHR 0x27, CHR 0x22]" by simp
  have h4: "CHR 0x22 \<notin> set ''ab''" by simp
  from unterminated_string_fails [OF h1 h2 h3 h4] h1 h4 show ?thesis by simp
qed

text \<open>
  C9: \<^verbatim>\<open>tokenize\<close> terminates on every input. Each iteration of the main loop that does
  not raise leaves strictly fewer characters than it found; and after at most as many
  iterations as the input has characters the loop has either raised, in which case
  \<^verbatim>\<open>tokenize\<close> fails with that error, or used up the input, in which case \<^verbatim>\<open>tokenize\<close>
  returns the tokens collected followed by \<^verbatim>\<open>EOF\<close>.
\<close>

theorem tokenize_terminates:
  "(\<forall>s s'. chars s \<noteq> [] \<and> step s = Inr s' \<longrightarrow> length (chars s') < length (chars s)) \<and>
   (\<forall>source_code.
      case iterate (length source_code) (initial source_code) of
        Inl e \<Rightarrow> tokenize source_code = Inl e
      | Inr s \<Rightarrow> chars s = [] \<and> tokenize source_code = Inr (token_stream s @ [Token [] EOF]))"
proof (intro conjI allI impI)
  fix s s' assume "chars s \<noteq> [] \<and> step s = Inr s'"
  then show "length (chars s') < length (chars s)" by (simp add: step_consumes)
next
  fix source_code
  show "case iterate (length source_code) (initial source_code) of
        Inl e \<Rightarrow> tokenize source_code = Inl e
      | Inr s \<Rightarrow> chars s = [] \<and> tokenize source_code = Inr (token_stream s @ [Token [] EOF])"
  proof (cases "iterate (length source_code) (initial source_code)")
    case (Inl e)
    from iterate_error [OF this] Inl show ?thesis by (simp add: tokenize_def)
  next
    case (Inr s)
    from iterate_length [OF this] have e: "chars s = []" by (auto simp: initial_def)
    from iterate_main_loop [OF Inr] e have "main_loop (initial source_code) = Inr s"
      by (simp add: main_loop_empty)
    with Inr e show ?thesis by (simp add: tokenize_def)
  qed
qed

theorem tokenize_terminates_witness:
  "(chars (initial ''a b'') \<noteq> [] \<and>
    step (initial ''a b'') =
      Inr \<lparr>chars = '' b'', any_bracket_level = 0, last_indent_level = 0,
           token_stream = [Token ''a'' IDENTIFIER]\<rparr>) \<and>
   length '' b'' < length ''a b''"
proof -
  have h: "chars (initial ''a b'') \<noteq> [] \<and>
    step (initial ''a b'') =
      Inr \<lparr>chars = '' b'', any_bracket_level = 0, last_indent_level = 0,
           token_stream = [Token ''a'' IDENTIFIER]\<rparr>"
    by code_simp
  from tokenize_terminates [THEN conjunct1, rule_format, OF h] h show ?thesis
    by (simp add: initial_def)
qed

text \<open>
  C10: when an iteration finds an opening quote, a body with a newline in it and without
  that quote character, and the closing quote, it consumes all of them, appends one
  \<^verbatim>\<open>STRING\<close> token whose value is the body with its newline, and nothing else: no
  \<^verbatim>\<open>NEWLINE\<close>, \<^verbatim>\<open>INDENT\<close> or \<^verbatim>\<open>DEDENT\<close> token, and \<^verbatim>\<open>last_indent_level\<close> and
  \<^verbatim>\<open>any_bracket_level\<close> keep their values.
\<close>

theorem newline_inside_string:
  "chars s = q # body @ q # rest \<Longrightarrow> q \<in> set [CHR 0x27, CHR 0x22] \<Longrightarrow> q \<notin> set body \<Longrightarrow>
   CHR 0x0A \<in> set body \<Longrightarrow>
     \<exists>s'. step s = Inr s' \<and> chars s' = rest \<and>
          token_stream s' = token_stream s @ [Token body STRING] \<and>
          last_indent_level s' = last_indent_level s \<and>
          any_bracket_level s' = any_bracket_level s"
proof -
  assume cs: "chars s = q # body @ q # rest" and q: "q \<in> set [CHR 0x27, CHR 0x22]"
    and no: "q \<notin> set body"
  from step_quote [OF cs q] string_mode_terminated [OF no]
  have "step s = Inr (s\<lparr>chars := rest, token_stream := token_stream s @ [Token body STRING]\<rparr>)"
    by simp
  then show ?thesis by simp
qed

theorem newline_inside_string_witness:
  "(CHR 0x22 \<notin> set ''a\<newline>    b'' \<and> CHR 0x0A \<in> set ''a\<newline>    b'') \<and>
   step \<lparr>chars = ''\"a\<newline>    b\" c'', any_bracket_level = 0, last_indent_level = 0,
         token_stream = []\<rparr> =
     Inr \<lparr>chars = '' c'', any_bracket_level = 0, last_indent_level = 0,
          token_stream = [Token ''a\<newline>    b'' STRING]\<rparr>"
proof -
  let ?s = "\<lparr>chars = ''\"a\<newline>    b\" c'', any_bracket_level = 0, last_indent_level = 0,
         token_stream = []\<rparr>"
  have h1: "chars ?s = CHR 0x22 # ''a\<newline>    b'' @ CHR 0x22 # '' c''" by simp
  have h2: "CHR 0x22 \<in> set [CHR 0x27, CHR 0x22]" by simp
  have h3: "CHR 0x22 \<notin> set ''a\<newline>    b''" by simp
  have h4: "CHR 0x0A \<in> set ''a\<newline>    b''" by simp
  from newline_inside_string [OF h1 h2 h3 h4]
  obtain s' where "step ?s = Inr s'" "chars s' = '' c''"
    "token_stream s' = token_stream ?s @ [Token ''a\<newline>    b'' STRING]"
    "last_indent_level s' = last_indent_level ?s" "any_bracket_level s' = any_bracket_level ?s"
    by blast
  then have "step ?s = Inr \<lparr>chars = '' c'', any_bracket_level = 0, last_indent_level = 0,
          token_stream = [Token ''a\<newline>    b'' STRING]\<rparr>"
    by (cases s') simp
  with h3 h4 show ?thesis by simp
qed

end
